theory Spec2Isabelle
  imports Complex_Main "HOL-Library.Multiset"
begin

section \<open>The lead table\<close>

text \<open>
  \<^verbatim>\<open>app.py\<close> reads \<^verbatim>\<open>self_insured_crm_list.csv\<close> into a data frame and works on its
  rows in frame order. A frame is modelled as the list of its rows. A text cell that the
  CSV leaves empty is pandas' NaN, written \<open>None\<close>; the two numeric columns are
  integers.
\<close>

record csv_row =
  Employer_Name :: "string option"
  EIN :: int
  State :: "string option"
  Participants :: int
  Market_Segment :: "string option"
  Plan_Name :: "string option"

text \<open>\<^verbatim>\<open>load_data\<close> adds two derived columns to every row.\<close>

record lead = csv_row +
  Priority_Tier :: string
  Perplexity_Query :: string

subsection \<open>Priority tiers (lines 41-54 and 102-105)\<close>

definition TIER_1_STATES :: "string list" where
  "TIER_1_STATES = [''MA'', ''NY'', ''CA'']"

definition TIER_2_STATES :: "string list" where
  "TIER_2_STATES = [''IL'', ''TX'', ''PA'', ''FL'', ''NJ'', ''OH'']"

text \<open>
  Python's \<^verbatim>\<open>x in xs\<close> on a list of strings, for a cell \<open>x\<close> that is a string or NaN:
  NaN equals no string, and the test never raises.
\<close>

definition py_in :: "string option \<Rightarrow> string list \<Rightarrow> bool" where
  "py_in x xs = (case x of None \<Rightarrow> False | Some s \<Rightarrow> s \<in> set xs)"

text \<open>The lambda of \<^verbatim>\<open>load_data\<close>, lines 52-53.\<close>

definition priority_tier :: "string option \<Rightarrow> string" where
  "priority_tier x =
     (if py_in x TIER_1_STATES then ''Tier 1''
      else (if py_in x TIER_2_STATES then ''Tier 2'' else ''Tier 3''))"

text \<open>The second copy of the lambda, in \<^verbatim>\<open>create_geographic_chart\<close>, lines 103-104.\<close>

definition chart_tier :: "string option \<Rightarrow> string" where
  "chart_tier x =
     (if py_in x TIER_1_STATES then ''Tier 1''
      else (if py_in x TIER_2_STATES then ''Tier 2'' else ''Tier 3''))"

subsection \<open>The Perplexity query (lines 57-60)\<close>

text \<open>
  An f-string formats each value with \<^verbatim>\<open>str\<close>: an integer in decimal, a string as
  itself, NaN as \<^verbatim>\<open>nan\<close>.
\<close>

definition digit_char :: "nat \<Rightarrow> char" where
  "digit_char d = ''0123456789'' ! d"

fun digits10 :: "nat \<Rightarrow> string" where
  "digits10 n = (if n < 10 then [digit_char n] else digits10 (n div 10) @ [digit_char (n mod 10)])"

declare digits10.simps [simp del]

definition str_int :: "int \<Rightarrow> string" where
  "str_int i = (if i < 0 then CHR ''-'' # digits10 (nat (- i)) else digits10 (nat i))"

definition str_cell :: "string option \<Rightarrow> string" where
  "str_cell x = (case x of None \<Rightarrow> ''nan'' | Some s \<Rightarrow> s)"

definition perplexity_query :: "'a csv_row_scheme \<Rightarrow> string" where
  "perplexity_query row =
     ''Find the employee benefits decision-maker (HR Director, Benefits Manager, or CFO) for ''
     @ str_cell (Employer_Name row) @ '' (EIN: '' @ str_int (EIN row) @ '') in ''
     @ str_cell (State row)
     @ ''. Include their name, title, email, and phone if available.''"

subsection \<open>Loading (lines 45-62)\<close>

text \<open>
  Reading and parsing the file, and the two \<^verbatim>\<open>except\<close> branches that stop the app when
  that fails, are input and output; the model starts from the parsed rows.
\<close>

definition annotate :: "csv_row \<Rightarrow> lead" where
  "annotate row =
     \<lparr>Employer_Name = Employer_Name row, EIN = EIN row, State = State row,
      Participants = Participants row, Market_Segment = Market_Segment row,
      Plan_Name = Plan_Name row,
      Priority_Tier = priority_tier (State row),
      Perplexity_Query = perplexity_query row\<rparr>"

definition load_data :: "csv_row list \<Rightarrow> lead list" where
  "load_data csv = map annotate csv"

text \<open>The three rows of the specification's scenario, in file order.\<close>

definition row_A :: csv_row where
  "row_A = \<lparr>Employer_Name = Some ''A'', EIN = 11, State = Some ''MA'', Participants = 6000,
            Market_Segment = Some ''Large (5K+)'', Plan_Name = None\<rparr>"

definition row_B :: csv_row where
  "row_B = \<lparr>Employer_Name = Some ''B'', EIN = 22, State = Some ''TX'', Participants = 3000,
            Market_Segment = Some ''Mid'', Plan_Name = None\<rparr>"

definition row_C :: csv_row where
  "row_C = \<lparr>Employer_Name = Some ''C'', EIN = 33, State = Some ''WY'', Participants = 9000,
            Market_Segment = Some ''Large (5K+)'', Plan_Name = None\<rparr>"

definition scenario :: "lead list" where
  "scenario = load_data [row_A, row_B, row_C]"

subsection \<open>Filtering (lines 225-249)\<close>

text \<open>
  The sidebar's widgets give the request: two multiselects of strings, the slider's pair
  of integers, the multiselect of market segments (its options are the column's
  \<^verbatim>\<open>unique()\<close> values, NaN among them when a cell is empty), and two text inputs.
\<close>

record filter_request =
  selected_states :: "string list"
  selected_tiers :: "string list"
  participant_range :: "int \<times> int"
  selected_segments :: "string option list"
  search_employer :: string
  search_ein :: string

text \<open>
  \<^verbatim>\<open>Series.str.contains(pat)\<close> is called with its default \<^verbatim>\<open>regex=True\<close>, so the
  search term is a regular expression, and a malformed one makes the call raise.
  Python's regular expressions and pandas are not part of this repository, so the engine
  is a parameter: \<open>compile\<close> gives, from the \<^verbatim>\<open>IGNORECASE\<close> flag and the pattern, the
  compiled pattern's search predicate, or \<open>None\<close> where the pattern is malformed; and
  \<open>raises_on_empty\<close> says whether a malformed pattern raises even when the column has
  no row (pandas versions differ: some compile the pattern before they look at the
  column, some only when there is a cell to search).
\<close>

record regex_engine =
  compile :: "bool \<Rightarrow> string \<Rightarrow> (string \<Rightarrow> bool) option"
  raises_on_empty :: bool

text \<open>
  \<open>Attribute_error\<close>: the \<^verbatim>\<open>.str\<close> accessor on a column that is not text.
  \<open>Re_error\<close>: the error of a malformed pattern.
\<close>

datatype error = Attribute_error | Re_error string

text \<open>
  \<^verbatim>\<open>read_csv\<close> types a column whose every cell is empty as \<^verbatim>\<open>float64\<close>, and as text
  (\<^verbatim>\<open>object\<close>) when a cell holds a name or the file has no row; filtering rows keeps the
  column's type.
\<close>

definition names_are_text :: "lead list \<Rightarrow> bool" where
  "names_are_text df = (df = [] \<or> list_ex (\<lambda>l. Employer_Name l \<noteq> None) df)"

text \<open>\<^verbatim>\<open>if selected_states: df = df[df['State'].isin(selected_states)]\<close>\<close>

definition filter_states :: "string list \<Rightarrow> lead list \<Rightarrow> lead list" where
  "filter_states sel df = (if sel \<noteq> [] then filter (\<lambda>l. py_in (State l) sel) df else df)"

definition filter_tiers :: "string list \<Rightarrow> lead list \<Rightarrow> lead list" where
  "filter_tiers sel df = (if sel \<noteq> [] then filter (\<lambda>l. Priority_Tier l \<in> set sel) df else df)"

text \<open>Lines 233-236: both comparisons, joined by \<^verbatim>\<open>&\<close>, with no guard.\<close>

definition filter_participants :: "int \<times> int \<Rightarrow> lead list \<Rightarrow> lead list" where
  "filter_participants r df =
     filter (\<lambda>l. fst r \<le> Participants l \<and> Participants l \<le> snd r) df"

text \<open>\<^verbatim>\<open>isin\<close> matches a NaN cell when NaN is among the selected values.\<close>

definition filter_segments :: "string option list \<Rightarrow> lead list \<Rightarrow> lead list" where
  "filter_segments sel df =
     (if sel \<noteq> [] then filter (\<lambda>l. Market_Segment l \<in> set sel) df else df)"

text \<open>
  \<^verbatim>\<open>df['Employer_Name'].str.contains(search_employer, case=False, na=False)\<close>:
  \<^verbatim>\<open>.str\<close> raises \<^verbatim>\<open>AttributeError\<close> on a column that is not text, before the pattern is
  looked at; the pattern is compiled with \<^verbatim>\<open>IGNORECASE\<close>; a NaN name is no match.
\<close>

definition filter_employer ::
    "regex_engine \<Rightarrow> bool \<Rightarrow> string \<Rightarrow> lead list \<Rightarrow> error + lead list" where
  "filter_employer re text_column pat df =
     (if pat \<noteq> [] then
        (if \<not> text_column then Inl Attribute_error
         else
           (case compile re True pat of
              None \<Rightarrow> if df = [] \<and> \<not> raises_on_empty re then Inr df else Inl (Re_error pat)
            | Some found \<Rightarrow>
                Inr (filter (\<lambda>l. case Employer_Name l of None \<Rightarrow> False | Some s \<Rightarrow> found s) df)))
      else Inr df)"

text \<open>
  \<^verbatim>\<open>df['EIN'].astype(str).str.contains(search_ein, na=False)\<close>: \<^verbatim>\<open>astype(str)\<close> always
  gives a text column; the search runs on the decimal form of the EIN, with case.
\<close>

definition filter_ein :: "regex_engine \<Rightarrow> string \<Rightarrow> lead list \<Rightarrow> error + lead list" where
  "filter_ein re pat df =
     (if pat \<noteq> [] then
        (case compile re False pat of
           None \<Rightarrow> if df = [] \<and> \<not> raises_on_empty re then Inr df else Inl (Re_error pat)
         | Some found \<Rightarrow> Inr (filter (\<lambda>l. found (str_int (EIN l))) df))
      else Inr df)"

text \<open>
  The six steps in the order of \<^verbatim>\<open>main\<close>, on a frame whose name column has the given
  type; an exception ends the run.
\<close>

definition run_filters ::
    "regex_engine \<Rightarrow> bool \<Rightarrow> filter_request \<Rightarrow> lead list \<Rightarrow> error + lead list" where
  "run_filters re text_column req df_original =
     (let df = filter_states (selected_states req) df_original;
          df = filter_tiers (selected_tiers req) df;
          df = filter_participants (participant_range req) df;
          df = filter_segments (selected_segments req) df
      in case filter_employer re text_column (search_employer req) df of
           Inl e \<Rightarrow> Inl e
         | Inr df \<Rightarrow> filter_ein re (search_ein req) df)"

text \<open>Lines 225-249 on the loaded frame, whose column types \<^verbatim>\<open>read_csv\<close> has set.\<close>

definition df_filtered :: "regex_engine \<Rightarrow> filter_request \<Rightarrow> lead list \<Rightarrow> error + lead list" where
  "df_filtered re req df_original = run_filters re (names_are_text df_original) req df_original"

text \<open>The tests of the four steps that read no pattern, taken together.\<close>

definition passes_selections :: "filter_request \<Rightarrow> lead \<Rightarrow> bool" where
  "passes_selections req l =
     ((selected_states req = [] \<or> py_in (State l) (selected_states req))
      \<and> (selected_tiers req = [] \<or> Priority_Tier l \<in> set (selected_tiers req))
      \<and> fst (participant_range req) \<le> Participants l
      \<and> Participants l \<le> snd (participant_range req)
      \<and> (selected_segments req = [] \<or> Market_Segment l \<in> set (selected_segments req)))"

text \<open>Running a second step on the outcome of a first: an exception is passed on.\<close>

definition and_then :: "error + 'a \<Rightarrow> ('a \<Rightarrow> error + 'b) \<Rightarrow> error + 'b" where
  "and_then r f = (case r of Inl e \<Rightarrow> Inl e | Inr x \<Rightarrow> f x)"

text \<open>
  For concrete runs: the part of Python's \<^verbatim>\<open>re\<close> on ASCII text and patterns of ASCII
  letters, digits and spaces, which it searches literally (folding case under
  \<^verbatim>\<open>IGNORECASE\<close>). Every other pattern is rejected here; Python rejects the malformed
  ones among them, such as the lone \<^verbatim>\<open>(\<close> used below.
\<close>

definition is_plain :: "char \<Rightarrow> bool" where
  "is_plain c = (c \<in> set ''abcdefghijklmnopqrstuvwxyzABCDEFGHIJKLMNOPQRSTUVWXYZ0123456789 '')"

definition lower :: "char \<Rightarrow> char" where
  "lower c =
     (case map_of (zip ''ABCDEFGHIJKLMNOPQRSTUVWXYZ'' ''abcdefghijklmnopqrstuvwxyz'') c of
        None \<Rightarrow> c
      | Some d \<Rightarrow> d)"

fun is_prefix :: "string \<Rightarrow> string \<Rightarrow> bool" where
  "is_prefix [] s = True"
| "is_prefix (p # ps) [] = False"
| "is_prefix (p # ps) (c # cs) = (p = c \<and> is_prefix ps cs)"

fun occurs_in :: "string \<Rightarrow> string \<Rightarrow> bool" where
  "occurs_in p [] = is_prefix p []"
| "occurs_in p (c # cs) = (is_prefix p (c # cs) \<or> occurs_in p cs)"

definition compile_plain :: "bool \<Rightarrow> string \<Rightarrow> (string \<Rightarrow> bool) option" where
  "compile_plain ignorecase pat =
     (if list_all is_plain pat then
        Some (\<lambda>s. if ignorecase then occurs_in (map lower pat) (map lower s)
                  else occurs_in pat s)
      else None)"

text \<open>Two engines over it, one for each behaviour on a column with no row.\<close>

definition re_plain :: regex_engine where
  "re_plain = \<lparr>compile = compile_plain, raises_on_empty = True\<rparr>"

definition re_plain_lazy :: regex_engine where
  "re_plain_lazy = \<lparr>compile = compile_plain, raises_on_empty = False\<rparr>"

text \<open>A request with every widget left empty and a range that holds every row above.\<close>

definition no_filter :: filter_request where
  "no_filter = \<lparr>selected_states = [], selected_tiers = [], participant_range = (0, 10000),
                selected_segments = [], search_employer = [], search_ein = []\<rparr>"

subsection \<open>Ranking (lines 130-138)\<close>

definition tier_order :: "string \<rightharpoonup> nat" where
  "tier_order = [''Tier 1'' \<mapsto> 0, ''Tier 2'' \<mapsto> 1, ''Tier 3'' \<mapsto> 2]"

text \<open>
  The \<^verbatim>\<open>Tier_Rank\<close> column, \<^verbatim>\<open>df['Priority_Tier'].map(tier_order)\<close>: NaN (\<open>None\<close>)
  for a label that is no key of the dictionary. The column is dropped again before the
  function returns, so it is a function of the row here.
\<close>

definition Tier_Rank :: "lead \<Rightarrow> nat option" where
  "Tier_Rank l = tier_order (Priority_Tier l)"

text \<open>
  \<^verbatim>\<open>sort_values(['Tier_Rank', 'Participants'], ascending=[True, False])\<close>. With two
  columns pandas replaces each column by integer codes that follow the column's order
  (a missing value gets the code after the last one, \<^verbatim>\<open>na_position='last'\<close>; a
  descending column gets its codes reversed) and calls \<^verbatim>\<open>numpy.lexsort\<close>, which sorts
  stably by the last column first and by the first column last. The keys below order
  the rows as those codes do.
\<close>

definition tier_key :: "lead \<Rightarrow> nat" where
  "tier_key l = (case Tier_Rank l of Some r \<Rightarrow> r | None \<Rightarrow> 3)"

definition participants_key :: "lead \<Rightarrow> int" where
  "participants_key l = - Participants l"

definition df_sorted :: "lead list \<Rightarrow> lead list" where
  "df_sorted df = sort_key tier_key (sort_key participants_key df)"

text \<open>\<^verbatim>\<open>DataFrame.head(n)\<close> is \<^verbatim>\<open>df[:n]\<close>: a negative \<open>n\<close> drops the last \<open>-n\<close> rows.\<close>

definition head :: "int \<Rightarrow> 'a list \<Rightarrow> 'a list" where
  "head n df = (if 0 \<le> n then take (nat n) df else take (length df - nat (- n)) df)"

definition get_top_priority_leads :: "lead list \<Rightarrow> int \<Rightarrow> lead list" where
  "get_top_priority_leads df n = head n (df_sorted df)"

text \<open>The order the sort aims at: an earlier tier, or the same tier and no fewer participants.\<close>

definition ranks_before :: "lead \<Rightarrow> lead \<Rightarrow> bool" where
  "ranks_before a b =
     (tier_key a < tier_key b \<or> (tier_key a = tier_key b \<and> Participants b \<le> Participants a))"

subsection \<open>Pagination (lines 303-313)\<close>

definition leads_per_page :: int where
  "leads_per_page = 50"

text \<open>
  \<^verbatim>\<open>(len(df_filtered) - 1) // leads_per_page + 1\<close>; Python's \<^verbatim>\<open>//\<close> rounds down, as
  \<open>div\<close> on \<open>int\<close> does.
\<close>

definition total_pages :: "int \<Rightarrow> int \<Rightarrow> int" where
  "total_pages n_rows per_page = (n_rows - 1) div per_page + 1"

text \<open>
  A slice \<^verbatim>\<open>iloc[start:stop]\<close>: a negative bound counts from the end, and both bounds
  are clipped to the frame.
\<close>

definition slice_bound :: "int \<Rightarrow> int \<Rightarrow> nat" where
  "slice_bound n i = nat (if i < 0 then max 0 (n + i) else min i n)"

definition iloc_slice :: "'a list \<Rightarrow> int \<Rightarrow> int \<Rightarrow> 'a list" where
  "iloc_slice df start stop =
     (let n = int (length df); s = slice_bound n start; e = slice_bound n stop
      in take (e - s) (drop s df))"

text \<open>
  Lines 308-313. The slice is taken on \<^verbatim>\<open>df_filtered[display_cols]\<close>, the same rows with
  fewer columns, so the page is defined for rows of any type. The page size is a
  parameter; \<^verbatim>\<open>main\<close> passes \<open>leads_per_page\<close>.
\<close>

definition df_page :: "'a list \<Rightarrow> int \<Rightarrow> int \<Rightarrow> 'a list" where
  "df_page df per_page page =
     (let start_idx = (page - 1) * per_page; end_idx = start_idx + per_page
      in iloc_slice df start_idx end_idx)"

subsection \<open>Vocabulary of the statements\<close>

text \<open>
  \<open>precedes a b xs\<close>: both rows occur in \<open>xs\<close>, and from the first occurrence of \<open>b\<close>
  on there is no \<open>a\<close>, so that every \<open>a\<close> stands before every \<open>b\<close>.
\<close>

definition precedes :: "'a \<Rightarrow> 'a \<Rightarrow> 'a list \<Rightarrow> bool" where
  "precedes a b xs = (a \<in> set xs \<and> b \<in> set xs \<and> a \<notin> set (dropWhile (\<lambda>x. x \<noteq> b) xs))"

text \<open>
  Reading a decimal numeral, written without reference to the formatter: digits only,
  no leading zero except in \<^verbatim>\<open>0\<close> itself, and a minus sign only before a non-zero number.
\<close>

definition digit_value :: "char \<Rightarrow> nat option" where
  "digit_value c = map_of (zip ''0123456789'' [0, 1, 2, 3, 4, 5, 6, 7, 8, 9]) c"

fun read_digits :: "nat \<Rightarrow> string \<Rightarrow> nat option" where
  "read_digits acc [] = Some acc"
| "read_digits acc (c # cs) =
     (case digit_value c of None \<Rightarrow> None | Some d \<Rightarrow> read_digits (10 * acc + d) cs)"

definition read_natural :: "string \<Rightarrow> nat option" where
  "read_natural s =
     (if s = [] \<or> (hd s = CHR ''0'' \<and> s \<noteq> ''0'') then None else read_digits 0 s)"

definition read_decimal :: "string \<Rightarrow> int option" where
  "read_decimal s =
     (case s of
        [] \<Rightarrow> None
      | c # ds \<Rightarrow>
          if c = CHR ''-'' then
            (case read_natural ds of
               None \<Rightarrow> None
             | Some n \<Rightarrow> if n = 0 then None else Some (- int n))
          else map_option int (read_natural s))"

text \<open>Two more rows for concrete runs: \<open>D\<close> ties with \<open>A\<close>, \<open>E\<close> is larger in the same tier.\<close>

definition row_D :: csv_row where
  "row_D = \<lparr>Employer_Name = Some ''D'', EIN = 44, State = Some ''NY'', Participants = 6000,
            Market_Segment = Some ''Large (5K+)'', Plan_Name = None\<rparr>"

definition row_E :: csv_row where
  "row_E = \<lparr>Employer_Name = None, EIN = 55, State = Some ''CA'', Participants = 7000,
            Market_Segment = None, Plan_Name = Some ''Plan E''\<rparr>"


definition malformed_request :: filter_request where
  "malformed_request = no_filter\<lparr>participant_range := (10000, 4000), search_employer := ''(''\<rparr>"

definition narrow_request :: filter_request where
  "narrow_request =
     \<lparr>selected_states = [''MA'', ''WY''], selected_tiers = [''Tier 1'', ''Tier 3''],
      participant_range = (4000, 10000), selected_segments = [Some ''Large (5K+)''],
      search_employer = ''a'', search_ein = ''1''\<rparr>"

section \<open>Unfolding the model on concrete rows\<close>

lemmas tier_defs = priority_tier_def py_in_def TIER_1_STATES_def TIER_2_STATES_def

lemmas query_defs = perplexity_query_def str_cell_def str_int_def digit_char_def digits10.simps

lemmas row_defs = row_A_def row_B_def row_C_def row_D_def row_E_def

lemmas load_defs = scenario_def load_data_def annotate_def row_defs tier_defs query_defs

lemmas rank_defs = df_sorted_def tier_key_def Tier_Rank_def tier_order_def participants_key_def

section \<open>Tier classification\<close>

lemma tier_lists_disjoint: "set TIER_1_STATES \<inter> set TIER_2_STATES = {}"
  by (simp add: TIER_1_STATES_def TIER_2_STATES_def)

text \<open>
  Claim C2. The classifier is a total function of the state cell, NaN included: it
  answers Tier 1 for a state of the first list, otherwise Tier 2 for a state of the
  second list, otherwise Tier 3 (so for NaN and for every unlisted state), its answer is
  always one of the three labels, and the two lists have no state in common.
\<close>

theorem priority_tier_total:
  "priority_tier x =
     (case x of
        None \<Rightarrow> ''Tier 3''
      | Some s \<Rightarrow> if s \<in> set TIER_1_STATES then ''Tier 1''
                 else if s \<in> set TIER_2_STATES then ''Tier 2'' else ''Tier 3'')
   \<and> priority_tier x \<in> {''Tier 1'', ''Tier 2'', ''Tier 3''}
   \<and> set TIER_1_STATES \<inter> set TIER_2_STATES = {}"
  by (simp add: priority_tier_def py_in_def tier_lists_disjoint split: option.split)

theorem priority_tier_total_witness:
  "priority_tier (Some ''MA'') = ''Tier 1'' \<and> priority_tier (Some ''TX'') = ''Tier 2''
   \<and> priority_tier (Some ''WY'') = ''Tier 3'' \<and> priority_tier None = ''Tier 3''
   \<and> priority_tier (Some ''ma'') = ''Tier 3''"
  using priority_tier_total [of "Some ''MA''"] priority_tier_total [of "Some ''TX''"]
    priority_tier_total [of "Some ''WY''"] priority_tier_total [of None]
    priority_tier_total [of "Some ''ma''"]
  by (simp add: TIER_1_STATES_def TIER_2_STATES_def)

text \<open>
  Claim C10. The tier lambda of the geographic chart and the tier lambda of
  \<^verbatim>\<open>load_data\<close> give the same label for every state cell.
\<close>

theorem chart_tier_eq_priority_tier: "chart_tier x = priority_tier x"
  by (simp add: chart_tier_def priority_tier_def)

section \<open>The query generator\<close>

lemma is_prefix_append: "is_prefix p (p @ s)"
  by (induction p) auto

lemma is_prefix_split: "is_prefix p s \<Longrightarrow> \<exists>post. s = p @ post"
  by (induction p s rule: is_prefix.induct) auto

lemma occurs_in_append: "occurs_in p (pre @ p @ post)"
proof (induction pre)
  case Nil
  show ?case using is_prefix_append [of p post] by (cases "p @ post") auto
next
  case (Cons c pre)
  then show ?case by simp
qed

text \<open>\<open>occurs_in\<close> is the substring test.\<close>

lemma occurs_in_iff: "occurs_in p s \<longleftrightarrow> (\<exists>pre post. s = pre @ p @ post)"
proof
  show "occurs_in p s \<Longrightarrow> \<exists>pre post. s = pre @ p @ post"
  proof (induction s)
    case Nil
    then show ?case using is_prefix_split [of p "[]"] by auto
  next
    case (Cons c cs)
    from Cons.prems have "is_prefix p (c # cs) \<or> occurs_in p cs" by simp
    then show ?case
    proof
      assume "is_prefix p (c # cs)"
      then obtain post where "c # cs = [] @ p @ post" using is_prefix_split by fastforce
      then show ?thesis by blast
    next
      assume "occurs_in p cs"
      then obtain pre post where "cs = pre @ p @ post" using Cons.IH by blast
      then have "c # cs = (c # pre) @ p @ post" by simp
      then show ?thesis by blast
    qed
  qed
next
  show "\<exists>pre post. s = pre @ p @ post \<Longrightarrow> occurs_in p s"
    using occurs_in_append by blast
qed

subsection \<open>The formatter writes the decimal numeral\<close>

lemma digit_cases:
  "d < (10::nat) \<Longrightarrow> d = 0 \<or> d = 1 \<or> d = 2 \<or> d = 3 \<or> d = 4 \<or> d = 5 \<or> d = 6 \<or> d = 7 \<or> d = 8 \<or> d = 9"
  by arith

lemma digit_value_digit_char: "d < 10 \<Longrightarrow> digit_value (digit_char d) = Some d"
  using digit_cases [of d] by (auto simp: digit_value_def digit_char_def)

lemma digit_value_Some: "digit_value c = Some d \<Longrightarrow> d < 10 \<and> c = digit_char d"
  by (auto simp: digit_value_def digit_char_def split: if_splits)

lemma read_digits_snoc:
  "read_digits acc (s @ [c]) =
     (case read_digits acc s of
        None \<Rightarrow> None
      | Some v \<Rightarrow> (case digit_value c of None \<Rightarrow> None | Some d \<Rightarrow> Some (10 * v + d)))"
  by (induction s arbitrary: acc) (auto split: option.splits)

lemma read_digits_digits10: "read_digits 0 (digits10 n) = Some n"
proof (induction n rule: digits10.induct)
  case (1 n)
  show ?case
  proof (cases "n < 10")
    case True
    then show ?thesis by (simp add: digits10.simps [of n] digit_value_digit_char)
  next
    case False
    then have "read_digits 0 (digits10 (n div 10)) = Some (n div 10)" using 1 by simp
    then show ?thesis
      using False by (simp add: digits10.simps [of n] read_digits_snoc digit_value_digit_char)
  qed
qed

lemma digits10_not_Nil: "digits10 n \<noteq> []"
  by (simp add: digits10.simps [of n])

lemma digits10_zero: "digits10 0 = ''0''"
  by (simp add: digits10.simps [of 0] digit_char_def)

lemma hd_digits10: "\<exists>d < 10. hd (digits10 n) = digit_char d \<and> (d = 0 \<longrightarrow> n = 0)"
proof (induction n rule: digits10.induct)
  case (1 n)
  show ?case
  proof (cases "n < 10")
    case True
    then show ?thesis by (auto simp: digits10.simps [of n])
  next
    case False
    then obtain d where "d < 10" "hd (digits10 (n div 10)) = digit_char d" "d = 0 \<longrightarrow> n div 10 = 0"
      using 1 by blast
    then show ?thesis
      using False by (auto simp: digits10.simps [of n] digits10_not_Nil)
  qed
qed

lemma digit_char_eq:
  assumes "d < 10" and "e < 10" and "digit_char d = digit_char e"
  shows "d = e"
proof -
  have "Some d = digit_value (digit_char d)"
    using assms(1) by (simp add: digit_value_digit_char)
  also have "\<dots> = digit_value (digit_char e)"
    by (simp only: assms(3))
  also have "\<dots> = Some e"
    using assms(2) by (simp add: digit_value_digit_char)
  finally show ?thesis by simp
qed

lemma digit_char_not_minus: "d < 10 \<Longrightarrow> digit_char d \<noteq> CHR ''-''"
  using digit_cases [of d] by (auto simp: digit_char_def)

lemma read_natural_digits10: "read_natural (digits10 n) = Some n"
proof -
  obtain d where d: "d < 10" "hd (digits10 n) = digit_char d" "d = 0 \<longrightarrow> n = 0"
    using hd_digits10 by blast
  have "digits10 n = ''0''" if "hd (digits10 n) = CHR ''0''"
  proof -
    have "digit_char d = digit_char 0" using that d(2) by (simp add: digit_char_def)
    then have "d = 0" using d(1) by (intro digit_char_eq) simp_all
    then show ?thesis using d(3) by (simp add: digits10_zero)
  qed
  then show ?thesis
    by (auto simp: read_natural_def digits10_not_Nil read_digits_digits10)
qed

lemma read_decimal_str_int: "read_decimal (str_int i) = Some i"
proof (cases "i < 0")
  case True
  then show ?thesis by (simp add: read_decimal_def str_int_def read_natural_digits10)
next
  case False
  obtain d where d: "d < 10" "hd (digits10 (nat i)) = digit_char d"
    using hd_digits10 by blast
  obtain c cs where cs: "digits10 (nat i) = c # cs"
    using digits10_not_Nil by (cases "digits10 (nat i)") auto
  then have "c \<noteq> CHR ''-''" using d digit_char_not_minus by auto
  then show ?thesis
    using False cs read_natural_digits10 [of "nat i"]
    by (simp add: read_decimal_def str_int_def)
qed

text \<open>No other string reads as the same number.\<close>

lemma read_natural_unique: "read_natural s = Some n \<Longrightarrow> s = digits10 n"
proof (induction s arbitrary: n rule: rev_induct)
  case Nil
  then show ?case by (simp add: read_natural_def)
next
  case (snoc c xs)
  from snoc.prems have canon: "\<not> (hd (xs @ [c]) = CHR ''0'' \<and> xs @ [c] \<noteq> ''0'')"
    and rd: "read_digits 0 (xs @ [c]) = Some n"
    by (auto simp: read_natural_def split: if_splits)
  from rd obtain v d where v: "read_digits 0 xs = Some v" and dv: "digit_value c = Some d"
    and n: "n = 10 * v + d"
    by (auto simp: read_digits_snoc split: option.splits)
  have d: "d < 10" "c = digit_char d" using dv digit_value_Some by blast+
  show ?case
  proof (cases "xs = []")
    case True
    then have "n = d" using v n by simp
    then show ?thesis using True d by (simp add: digits10.simps [of d])
  next
    case False
    then have "hd xs \<noteq> CHR ''0''" using canon by (cases xs) auto
    then have "read_natural xs = Some v" using False v by (simp add: read_natural_def)
    then have xs: "xs = digits10 v" by (rule snoc.IH)
    have "v \<noteq> 0"
    proof
      assume "v = 0"
      then have "xs = ''0''" using xs by (simp add: digits10_zero)
      then have "hd xs = CHR ''0''" by simp
      then show False using \<open>hd xs \<noteq> CHR ''0''\<close> by contradiction
    qed
    then have "\<not> n < 10" "n div 10 = v" "n mod 10 = d" using n d(1) by simp_all
    then show ?thesis using xs d(2) by (simp add: digits10.simps [of n])
  qed
qed

lemma read_decimal_unique: "read_decimal s = Some i \<Longrightarrow> s = str_int i"
proof (cases s)
  case Nil
  then show "read_decimal s = Some i \<Longrightarrow> s = str_int i" by (simp add: read_decimal_def)
next
  case (Cons c ds)
  assume rd: "read_decimal s = Some i"
  show "s = str_int i"
  proof (cases "c = CHR ''-''")
    case True
    then obtain n where "read_natural ds = Some n" "n \<noteq> 0" "i = - int n"
      using rd Cons by (auto simp: read_decimal_def split: option.splits if_splits)
    then show ?thesis
      using Cons True read_natural_unique [of ds n] by (simp add: str_int_def)
  next
    case False
    then obtain n where "read_natural s = Some n" "i = int n"
      using rd Cons by (auto simp: read_decimal_def)
    then show ?thesis
      using read_natural_unique [of s n] by (simp add: str_int_def)
  qed
qed

lemma str_int_inject:
  assumes "str_int i = str_int j"
  shows "i = j"
proof -
  have "Some i = read_decimal (str_int i)"
    by (simp add: read_decimal_str_int)
  also have "\<dots> = read_decimal (str_int j)"
    by (simp only: assms)
  also have "\<dots> = Some j"
    by (simp add: read_decimal_str_int)
  finally show ?thesis by simp
qed

text \<open>
  Claim C9. The query is a function of the row's employer name, EIN and state alone: two
  rows that agree on these three cells get the same string, character for character,
  whatever their other cells hold (so two evaluations on the same row agree). The string
  is the fixed prompt with the employer name, the decimal numeral of the EIN and the
  state set into it (a missing name or state prints as \<^verbatim>\<open>nan\<close>), so each of the three
  occurs in it; and two rows with the same name and state but different EINs get
  different strings.
\<close>

theorem perplexity_query_deterministic:
  "(Employer_Name a = Employer_Name b \<and> EIN a = EIN b \<and> State a = State b
      \<longrightarrow> perplexity_query a = perplexity_query b)
   \<and> (Employer_Name a = Employer_Name b \<and> State a = State b \<and> EIN a \<noteq> EIN b
      \<longrightarrow> perplexity_query a \<noteq> perplexity_query b)
   \<and> (\<exists>ein. read_decimal ein = Some (EIN a)
        \<and> perplexity_query a =
            ''Find the employee benefits decision-maker (HR Director, Benefits Manager, or CFO) for ''
            @ (case Employer_Name a of None \<Rightarrow> ''nan'' | Some s \<Rightarrow> s)
            @ '' (EIN: '' @ ein @ '') in ''
            @ (case State a of None \<Rightarrow> ''nan'' | Some s \<Rightarrow> s)
            @ ''. Include their name, title, email, and phone if available.''
        \<and> occurs_in ein (perplexity_query a))
   \<and> occurs_in (case Employer_Name a of None \<Rightarrow> ''nan'' | Some s \<Rightarrow> s) (perplexity_query a)
   \<and> occurs_in (case State a of None \<Rightarrow> ''nan'' | Some s \<Rightarrow> s) (perplexity_query a)"
proof -
  let ?head = "''Find the employee benefits decision-maker (HR Director, Benefits Manager, or CFO) for ''"
  let ?name = "case Employer_Name a of None \<Rightarrow> ''nan'' | Some s \<Rightarrow> s"
  let ?state = "case State a of None \<Rightarrow> ''nan'' | Some s \<Rightarrow> s"
  let ?tail = "''. Include their name, title, email, and phone if available.''"
  have shape: "perplexity_query a
      = ?head @ ?name @ '' (EIN: '' @ str_int (EIN a) @ '') in '' @ ?state @ ?tail"
    by (simp add: perplexity_query_def str_cell_def)
  have same: "perplexity_query a = perplexity_query b"
    if "Employer_Name a = Employer_Name b" "EIN a = EIN b" "State a = State b"
    using that by (simp add: perplexity_query_def)
  have differ: "perplexity_query a \<noteq> perplexity_query b"
    if "Employer_Name a = Employer_Name b" "State a = State b" "EIN a \<noteq> EIN b"
  proof
    assume "perplexity_query a = perplexity_query b"
    then have "str_int (EIN a) = str_int (EIN b)"
      using that(1,2) by (simp add: perplexity_query_def)
    then show False using that(3) str_int_inject by blast
  qed
  have ein: "occurs_in (str_int (EIN a)) (perplexity_query a)"
    unfolding shape
    using occurs_in_append [of "str_int (EIN a)" "?head @ ?name @ '' (EIN: ''"]
    by (simp only: append_assoc)
  have name: "occurs_in ?name (perplexity_query a)"
    unfolding shape by (rule occurs_in_append)
  have state: "occurs_in ?state (perplexity_query a)"
    unfolding shape
    using occurs_in_append [of ?state "?head @ ?name @ '' (EIN: '' @ str_int (EIN a) @ '') in ''"]
    by (simp only: append_assoc)
  have "\<exists>ein. read_decimal ein = Some (EIN a)
      \<and> perplexity_query a = ?head @ ?name @ '' (EIN: '' @ ein @ '') in '' @ ?state @ ?tail
      \<and> occurs_in ein (perplexity_query a)"
    using read_decimal_str_int shape ein by blast
  then show ?thesis using same differ name state by blast
qed

theorem perplexity_query_deterministic_witness:
  "Employer_Name (annotate row_A) = Employer_Name row_A \<and> EIN (annotate row_A) = EIN row_A
   \<and> State (annotate row_A) = State row_A
   \<and> perplexity_query (annotate row_A) = perplexity_query row_A
   \<and> Employer_Name row_A = Employer_Name (row_A\<lparr>EIN := 123456789\<rparr>)
   \<and> State row_A = State (row_A\<lparr>EIN := 123456789\<rparr>)
   \<and> EIN row_A \<noteq> EIN (row_A\<lparr>EIN := 123456789\<rparr>)
   \<and> perplexity_query row_A \<noteq> perplexity_query (row_A\<lparr>EIN := 123456789\<rparr>)
   \<and> perplexity_query row_A =
       ''Find the employee benefits decision-maker (HR Director, Benefits Manager, or CFO) for A (EIN: 11) in MA. Include their name, title, email, and phone if available.''
   \<and> perplexity_query (row_A\<lparr>EIN := 123456789\<rparr>) =
       ''Find the employee benefits decision-maker (HR Director, Benefits Manager, or CFO) for A (EIN: 123456789) in MA. Include their name, title, email, and phone if available.''
   \<and> perplexity_query row_E =
       ''Find the employee benefits decision-maker (HR Director, Benefits Manager, or CFO) for nan (EIN: 55) in CA. Include their name, title, email, and phone if available.''
   \<and> read_decimal ''11'' = Some 11 \<and> read_decimal ''123456789'' = Some 123456789
   \<and> read_decimal ''011'' = None
   \<and> str_int 0 = ''0'' \<and> str_int 907 = ''907'' \<and> str_int (- 40) = ''-40''"
proof -
  have q1: "perplexity_query row_A =
       ''Find the employee benefits decision-maker (HR Director, Benefits Manager, or CFO) for A (EIN: 11) in MA. Include their name, title, email, and phone if available.''"
    by (simp add: row_A_def query_defs)
  have q2: "perplexity_query (row_A\<lparr>EIN := 123456789\<rparr>) =
       ''Find the employee benefits decision-maker (HR Director, Benefits Manager, or CFO) for A (EIN: 123456789) in MA. Include their name, title, email, and phone if available.''"
    by (simp add: row_A_def query_defs)
  have q3: "perplexity_query row_E =
       ''Find the employee benefits decision-maker (HR Director, Benefits Manager, or CFO) for nan (EIN: 55) in CA. Include their name, title, email, and phone if available.''"
    by (simp add: row_E_def query_defs)
  have r1: "read_decimal ''11'' = Some 11"
    and r2: "read_decimal ''123456789'' = Some 123456789"
    and r3: "read_decimal ''011'' = None"
    by (simp_all add: read_decimal_def read_natural_def digit_value_def)
  have s1: "str_int 0 = ''0''" and s2: "str_int 907 = ''907''" and s3: "str_int (- 40) = ''-40''"
    by (simp_all add: str_int_def digit_char_def digits10.simps)
  have c1: "Employer_Name (annotate row_A) = Employer_Name row_A"
    and c2: "EIN (annotate row_A) = EIN row_A"
    and c3: "State (annotate row_A) = State row_A"
    by (simp_all add: annotate_def)
  have c4: "Employer_Name row_A = Employer_Name (row_A\<lparr>EIN := 123456789\<rparr>)"
    and c5: "State row_A = State (row_A\<lparr>EIN := 123456789\<rparr>)"
    and c6: "EIN row_A \<noteq> EIN (row_A\<lparr>EIN := 123456789\<rparr>)"
    by (simp_all add: row_A_def)
  have same: "perplexity_query (annotate row_A) = perplexity_query row_A"
    using perplexity_query_deterministic [of "annotate row_A" row_A] c1 c2 c3 by blast
  have differ: "perplexity_query row_A \<noteq> perplexity_query (row_A\<lparr>EIN := 123456789\<rparr>)"
    using perplexity_query_deterministic [of row_A "row_A\<lparr>EIN := 123456789\<rparr>"] c4 c5 c6
    by blast
  show ?thesis
    by (intro conjI) (rule c1 c2 c3 c4 c5 c6 same differ q1 q2 q3 r1 r2 r3 s1 s2 s3)+
qed

section \<open>Ranking\<close>

lemma insort_key_ranks:
  assumes "sorted_wrt ranks_before ys" and "\<forall>y \<in> set ys. Participants y \<le> Participants x"
  shows "sorted_wrt ranks_before (insort_key tier_key x ys)"
  using assms
proof (induction ys)
  case Nil
  then show ?case by simp
next
  case (Cons y ys)
  show ?case
  proof (cases "tier_key x \<le> tier_key y")
    case True
    have "ranks_before x z" if "z \<in> set (y # ys)" for z
    proof -
      have "ranks_before y z \<or> z = y" using Cons.prems(1) that by auto
      then have "tier_key y \<le> tier_key z" by (auto simp: ranks_before_def)
      moreover have "Participants z \<le> Participants x" using Cons.prems(2) that by blast
      ultimately show ?thesis using True by (auto simp: ranks_before_def)
    qed
    then show ?thesis using True Cons.prems(1) by simp
  next
    case False
    then have "ranks_before y x" by (simp add: ranks_before_def)
    then show ?thesis using False Cons by (auto simp: set_insort_key)
  qed
qed

lemma sort_key_tier_ranks:
  "sorted (map participants_key zs) \<Longrightarrow> sorted_wrt ranks_before (sort_key tier_key zs)"
proof (induction zs)
  case Nil
  then show ?case by simp
next
  case (Cons z zs)
  then have "\<forall>y \<in> set (sort_key tier_key zs). Participants y \<le> Participants z"
    by (auto simp: participants_key_def)
  then show ?case using Cons by (simp add: insort_key_ranks)
qed

lemma df_sorted_ranks: "sorted_wrt ranks_before (df_sorted df)"
  unfolding df_sorted_def by (rule sort_key_tier_ranks) simp

lemma set_df_sorted: "set (df_sorted df) = set df"
  by (simp add: df_sorted_def)

lemma length_df_sorted: "length (df_sorted df) = length df"
  by (simp add: df_sorted_def)

lemma dropWhile_until: "b \<in> set xs \<Longrightarrow> \<exists>vs. dropWhile (\<lambda>x. x \<noteq> b) xs = b # vs"
  by (induction xs) auto

text \<open>In a list ordered by \<open>ranks_before\<close>, a row that may not follow another precedes it.\<close>

lemma ranked_precedes:
  assumes "sorted_wrt ranks_before xs" and "a \<in> set xs" and "b \<in> set xs"
    and "\<not> ranks_before b a"
  shows "precedes a b xs"
proof -
  have "a \<noteq> b" using assms(4) by (auto simp: ranks_before_def)
  have "a \<notin> set (dropWhile (\<lambda>x. x \<noteq> b) xs)"
  proof
    assume a: "a \<in> set (dropWhile (\<lambda>x. x \<noteq> b) xs)"
    obtain vs where vs: "dropWhile (\<lambda>x. x \<noteq> b) xs = b # vs"
      using assms(3) dropWhile_until by fastforce
    have "sorted_wrt ranks_before (takeWhile (\<lambda>x. x \<noteq> b) xs @ dropWhile (\<lambda>x. x \<noteq> b) xs)"
      using assms(1) by simp
    then have "sorted_wrt ranks_before (b # vs)"
      unfolding sorted_wrt_append vs by blast
    moreover have "a \<in> set vs" using a \<open>a \<noteq> b\<close> by (simp add: vs)
    ultimately have "ranks_before b a" by simp
    then show False using assms(4) by contradiction
  qed
  then show ?thesis using assms(2,3) by (simp add: precedes_def)
qed

lemma filter_sort_key_const:
  assumes "\<And>x. P x \<Longrightarrow> f x = k"
  shows "filter P (sort_key f xs) = filter P xs"
proof -
  have "filter P (sort_key f xs) = filter P (filter (\<lambda>y. f y = k) (sort_key f xs))"
    using assms by (auto intro: filter_cong)
  also have "\<dots> = filter P (filter (\<lambda>y. f y = k) xs)"
    by (simp only: sort_key_stable)
  also have "\<dots> = filter P xs"
    using assms by (auto intro: filter_cong)
  finally show ?thesis .
qed

text \<open>
  Claim C1. The sort is stable: for every frame, in any order, and every tier label and
  participant count, the rows with that tier and that count stand in the sorted frame
  (\<^verbatim>\<open>df_sorted\<close>, before \<^verbatim>\<open>head\<close>) in the same order as in the input.
\<close>

theorem df_sorted_stable:
  "filter (\<lambda>l. Priority_Tier l = t \<and> Participants l = p) (df_sorted df)
     = filter (\<lambda>l. Priority_Tier l = t \<and> Participants l = p) df"
proof -
  let ?P = "\<lambda>l. Priority_Tier l = t \<and> Participants l = p"
  have tier: "tier_key l = (case tier_order t of Some r \<Rightarrow> r | None \<Rightarrow> 3)" if "?P l" for l
    using that by (simp add: tier_key_def Tier_Rank_def)
  have part: "participants_key l = - p" if "?P l" for l
    using that by (simp add: participants_key_def)
  have "filter ?P (df_sorted df) = filter ?P (sort_key participants_key df)"
    unfolding df_sorted_def using tier by (rule filter_sort_key_const)
  also have "\<dots> = filter ?P df"
    using part by (rule filter_sort_key_const)
  finally show ?thesis .
qed

theorem df_sorted_stable_witness:
  "df_sorted (load_data [row_C, row_D, row_B, row_A]) = load_data [row_D, row_A, row_B, row_C]
   \<and> df_sorted (load_data [row_A, row_C, row_D]) = load_data [row_A, row_D, row_C]
   \<and> filter (\<lambda>l. Priority_Tier l = ''Tier 1'' \<and> Participants l = 6000)
        (df_sorted (load_data [row_C, row_D, row_B, row_A])) = load_data [row_D, row_A]
   \<and> filter (\<lambda>l. Priority_Tier l = ''Tier 1'' \<and> Participants l = 6000)
        (df_sorted (load_data [row_A, row_C, row_D])) = load_data [row_A, row_D]"
  using df_sorted_stable [of "''Tier 1''" 6000 "load_data [row_C, row_D, row_B, row_A]"]
    df_sorted_stable [of "''Tier 1''" 6000 "load_data [row_A, row_C, row_D]"]
  by (simp add: load_defs rank_defs)

text \<open>
  Claim C3. For every two rows \<open>a\<close> and \<open>b\<close> of the input: if they have the same tier and
  \<open>a\<close> has strictly more participants, then \<open>a\<close> precedes \<open>b\<close> in the sorted frame; and if
  \<open>a\<close>'s tier comes earlier than \<open>b\<close>'s in the order Tier 1, Tier 2, Tier 3, then \<open>a\<close>
  precedes \<open>b\<close> whatever their participants.
\<close>

theorem df_sorted_order:
  assumes "a \<in> set df" and "b \<in> set df"
  shows "(Priority_Tier a = Priority_Tier b \<and> Participants b < Participants a
            \<longrightarrow> precedes a b (df_sorted df))
    \<and> ((Priority_Tier a, Priority_Tier b)
          \<in> {(''Tier 1'', ''Tier 2''), (''Tier 1'', ''Tier 3''), (''Tier 2'', ''Tier 3'')}
            \<longrightarrow> precedes a b (df_sorted df))"
proof -
  have mem: "a \<in> set (df_sorted df)" "b \<in> set (df_sorted df)"
    using assms by (simp_all add: set_df_sorted)
  have "precedes a b (df_sorted df)"
    if "Priority_Tier a = Priority_Tier b" and "Participants b < Participants a"
  proof -
    have "\<not> ranks_before b a"
      using that by (simp add: ranks_before_def tier_key_def Tier_Rank_def)
    then show ?thesis using df_sorted_ranks mem by (rule ranked_precedes [rotated 3])
  qed
  moreover have "precedes a b (df_sorted df)"
    if "(Priority_Tier a, Priority_Tier b)
          \<in> {(''Tier 1'', ''Tier 2''), (''Tier 1'', ''Tier 3''), (''Tier 2'', ''Tier 3'')}"
  proof -
    have "tier_key a < tier_key b"
      using that by (auto simp: tier_key_def Tier_Rank_def tier_order_def)
    then have "\<not> ranks_before b a" by (simp add: ranks_before_def)
    then show ?thesis using df_sorted_ranks mem by (rule ranked_precedes [rotated 3])
  qed
  ultimately show ?thesis by blast
qed

theorem df_sorted_order_witness:
  "annotate row_E \<in> set (load_data [row_C, row_B, row_A, row_E])
   \<and> annotate row_A \<in> set (load_data [row_C, row_B, row_A, row_E])
   \<and> annotate row_C \<in> set (load_data [row_C, row_B, row_A, row_E])
   \<and> Priority_Tier (annotate row_E) = Priority_Tier (annotate row_A)
   \<and> Participants (annotate row_A) < Participants (annotate row_E)
   \<and> precedes (annotate row_E) (annotate row_A) (df_sorted (load_data [row_C, row_B, row_A, row_E]))
   \<and> Priority_Tier (annotate row_A) = ''Tier 1'' \<and> Priority_Tier (annotate row_C) = ''Tier 3''
   \<and> Participants (annotate row_A) < Participants (annotate row_C)
   \<and> precedes (annotate row_A) (annotate row_C) (df_sorted (load_data [row_C, row_B, row_A, row_E]))
   \<and> df_sorted (load_data [row_C, row_B, row_A, row_E]) = load_data [row_E, row_A, row_B, row_C]"
  using df_sorted_order [of "annotate row_E" "load_data [row_C, row_B, row_A, row_E]" "annotate row_A"]
    df_sorted_order [of "annotate row_A" "load_data [row_C, row_B, row_A, row_E]" "annotate row_C"]
  by (simp add: load_defs rank_defs)

text \<open>
  Claim C8. For every frame and every \<open>n \<ge> 0\<close>, \<^verbatim>\<open>get_top_priority_leads\<close> returns the
  first \<open>n\<close> rows of the sorted frame, and the whole sorted frame, with no error, when the
  frame has no more than \<open>n\<close> rows.
\<close>

theorem get_top_priority_leads_take:
  assumes "0 \<le> n"
  shows "get_top_priority_leads df n = take (nat n) (df_sorted df)
    \<and> (int (length df) \<le> n \<longrightarrow> get_top_priority_leads df n = df_sorted df)"
  using assms by (simp add: get_top_priority_leads_def head_def length_df_sorted)

theorem get_top_priority_leads_take_witness:
  "(0::int) \<le> 2 \<and> get_top_priority_leads (rev scenario) 2 = load_data [row_A, row_B]
   \<and> int (length (rev scenario)) \<le> 50
   \<and> get_top_priority_leads (rev scenario) 50 = scenario"
  using get_top_priority_leads_take [of 2 "rev scenario"]
    get_top_priority_leads_take [of 50 "rev scenario"]
  by (simp add: load_defs rank_defs)

section \<open>Filtering\<close>

text \<open>The four steps that read no pattern keep the rows that pass one test.\<close>

lemma selections_filter:
  "filter_segments (selected_segments req)
     (filter_participants (participant_range req)
       (filter_tiers (selected_tiers req) (filter_states (selected_states req) df)))
   = filter (passes_selections req) df"
  by (simp add: filter_states_def filter_tiers_def filter_participants_def filter_segments_def
      passes_selections_def conj_commute conj_left_commute cong: filter_cong)


lemma filter_unchanged: "(\<And>x. x \<in> set xs \<Longrightarrow> P x) \<Longrightarrow> filter P xs = xs"
  by (simp add: filter_id_conv)

text \<open>An EIN search that returns a frame returns the same frame when run on it again.\<close>

lemma filter_ein_again:
  assumes "filter_ein re pat df = Inr out"
  shows "filter_ein re pat out = Inr out"
proof (cases "pat = []")
  case True
  then show ?thesis by (simp add: filter_ein_def)
next
  case False
  show ?thesis
  proof (cases "compile re False pat")
    case None
    then have "out = []" "\<not> raises_on_empty re"
      using assms False by (auto simp: filter_ein_def split: if_splits)
    then show ?thesis using None False by (simp add: filter_ein_def)
  next
    case (Some found)
    then have "out = filter (\<lambda>l. found (str_int (EIN l))) df"
      using assms False by (simp add: filter_ein_def)
    then have "filter (\<lambda>l. found (str_int (EIN l))) out = out"
      by simp
    then show ?thesis using Some False by (simp add: filter_ein_def)
  qed
qed

text \<open>Every step returns rows of its input, in their order.\<close>

lemma filter_employer_rows:
  "filter_employer re t pat df = Inr out \<Longrightarrow> set out \<subseteq> set df"
  by (auto simp: filter_employer_def split: if_splits option.splits)

lemma filter_ein_rows:
  "filter_ein re pat df = Inr out \<Longrightarrow> set out \<subseteq> set df"
  by (auto simp: filter_ein_def split: if_splits option.splits)

text \<open>After a run with an employer term, the rows left all have a name.\<close>

lemma filter_employer_named:
  assumes "filter_employer re t pat df = Inr out" and "pat \<noteq> []" and "l \<in> set out"
  shows "Employer_Name l \<noteq> None"
  using assms by (auto simp: filter_employer_def split: if_splits option.splits)

lemma run_filters_again:
  assumes run: "run_filters re t req df = Inr out"
    and t': "search_employer req \<noteq> [] \<longrightarrow> t'"
  shows "run_filters re t' req out = Inr out"
proof -
  define F where "F = filter (passes_selections req) df"
  obtain G where G: "filter_employer re t (search_employer req) F = Inr G"
    and out: "filter_ein re (search_ein req) G = Inr out"
    using run by (auto simp: run_filters_def selections_filter F_def split: sum.splits)
  have GF: "set G \<subseteq> set F" using G by (rule filter_employer_rows)
  have outG: "set out \<subseteq> set G" using out by (rule filter_ein_rows)
  have "filter (passes_selections req) out = out"
    using GF outG by (intro filter_unchanged) (auto simp: F_def)
  moreover have "filter_employer re t' (search_employer req) out = Inr out"
  proof (cases "search_employer req = []")
    case True
    then show ?thesis by (simp add: filter_employer_def)
  next
    case False
    then have t: "t" and tt: "t'"
      using G t' by (auto simp: filter_employer_def split: if_splits)
    show ?thesis
    proof (cases "compile re True (search_employer req)")
      case None
      then have "G = []" "\<not> raises_on_empty re"
        using G False t by (auto simp: filter_employer_def split: if_splits)
      then show ?thesis using None False tt outG by (simp add: filter_employer_def)
    next
      case (Some found)
      then have "G = filter (\<lambda>l. case Employer_Name l of None \<Rightarrow> False | Some s \<Rightarrow> found s) F"
        using G False t by (simp add: filter_employer_def)
      then have "filter (\<lambda>l. case Employer_Name l of None \<Rightarrow> False | Some s \<Rightarrow> found s) out = out"
        using outG by (intro filter_unchanged) auto
      then show ?thesis using Some False tt by (simp add: filter_employer_def)
    qed
  qed
  moreover have "filter_ein re (search_ein req) out = Inr out"
    using out by (rule filter_ein_again)
  ultimately show ?thesis by (simp add: run_filters_def selections_filter)
qed

lemma run_filters_text:
  assumes run: "run_filters re t req df = Inr out" and "search_employer req \<noteq> []"
  shows "t \<and> names_are_text out"
proof -
  obtain G where G: "filter_employer re t (search_employer req) (filter (passes_selections req) df) = Inr G"
    and out: "filter_ein re (search_ein req) G = Inr out"
    using run by (auto simp: run_filters_def selections_filter split: sum.splits)
  have outG: "set out \<subseteq> set G" using out by (rule filter_ein_rows)
  have "t" using G assms(2) by (auto simp: filter_employer_def split: if_splits)
  moreover have "Employer_Name l \<noteq> None" if "l \<in> set out" for l
    using filter_employer_named [OF G assms(2), of l] that outG by blast
  then have "names_are_text out"
    by (cases out) (auto simp: names_are_text_def list_ex_iff)
  ultimately show ?thesis by simp
qed

text \<open>
  Claim C4. For every frame, every request and every regex engine, filtering the outcome
  of the filter again with the same request changes nothing: the second run returns the
  frame the first run returned, and where the first run raises there is no frame to
  filter and the error stands. This holds with the outcome taken as a frame of its own
  and with the outcome keeping the column type of the frame it was filtered from.
\<close>

theorem df_filtered_idempotent:
  "and_then (df_filtered re req df) (df_filtered re req) = df_filtered re req df
   \<and> and_then (df_filtered re req df) (run_filters re (names_are_text df) req)
       = df_filtered re req df"
proof (cases "df_filtered re req df")
  case (Inl e)
  then show ?thesis by (simp add: and_then_def)
next
  case (Inr out)
  then have run: "run_filters re (names_are_text df) req df = Inr out"
    by (simp add: df_filtered_def)
  have "search_employer req \<noteq> [] \<longrightarrow> names_are_text out"
    and "search_employer req \<noteq> [] \<longrightarrow> names_are_text df"
    using run_filters_text [OF run] by blast+
  then have "run_filters re (names_are_text out) req out = Inr out"
    and "run_filters re (names_are_text df) req out = Inr out"
    using run by (blast intro: run_filters_again)+
  then show ?thesis using Inr by (simp add: and_then_def df_filtered_def)
qed

theorem df_filtered_idempotent_witness:
  "df_filtered re_plain narrow_request scenario = Inr (load_data [row_A])
   \<and> df_filtered re_plain narrow_request (load_data [row_A]) = Inr (load_data [row_A])
   \<and> and_then (df_filtered re_plain narrow_request scenario) (df_filtered re_plain narrow_request)
       = Inr (load_data [row_A])
   \<and> and_then (df_filtered re_plain narrow_request scenario)
        (run_filters re_plain (names_are_text scenario) narrow_request)
       = Inr (load_data [row_A])"
proof -
  have first: "df_filtered re_plain narrow_request scenario = Inr (load_data [row_A])"
    by code_simp
  have again: "df_filtered re_plain narrow_request (load_data [row_A]) = Inr (load_data [row_A])"
    by code_simp
  show ?thesis
    using df_filtered_idempotent [of re_plain narrow_request scenario] first again by simp
qed


text \<open>
  What the code does with a reversed range on every input: the range step leaves no row;
  the filter returns the empty frame, or raises because the name column is not text, or
  raises the error of a malformed search term.
\<close>

lemma reversed_range_outcomes:
  assumes "snd (participant_range req) < fst (participant_range req)"
  shows "df_filtered re req df
    \<in> {Inr [], Inl Attribute_error, Inl (Re_error (search_employer req)),
       Inl (Re_error (search_ein req))}"
proof -
  have "filter (passes_selections req) df = []"
    using assms by (auto simp: passes_selections_def filter_empty_conv)
  then show ?thesis
    by (auto simp: df_filtered_def run_filters_def selections_filter filter_employer_def
        filter_ein_def split: option.splits)
qed

text \<open>
  Whether a malformed search term raises after the range step has emptied the frame
  depends on the engine: it does where the pattern is compiled before the column is
  looked at, and it does not where the pattern is compiled only for a cell.
\<close>

lemma malformed_term_reversed_range:
  "df_filtered re_plain malformed_request scenario = Inl (Re_error ''('')
   \<and> df_filtered re_plain_lazy malformed_request scenario = Inr []"
proof -
  have none: "compile_plain True ''('' = None"
    by (simp add: compile_plain_def is_plain_def)
  have typed: "names_are_text scenario"
    by (simp add: names_are_text_def scenario_def load_data_def annotate_def row_A_def)
  have terms: "search_employer malformed_request = ''(''" "search_ein malformed_request = []"
    by (simp_all add: malformed_request_def no_filter_def)
  have "snd (participant_range malformed_request) < fst (participant_range malformed_request)"
    by (simp add: malformed_request_def no_filter_def)
  then have empty: "filter (passes_selections malformed_request) scenario = []"
    by (auto simp: passes_selections_def filter_empty_conv)
  have "run_filters re True malformed_request scenario =
      (if raises_on_empty re then Inl (Re_error ''('') else Inr [])"
    if "compile re = compile_plain" for re
    using that none
    by (simp add: run_filters_def selections_filter empty terms filter_employer_def filter_ein_def)
  then show ?thesis
    using typed by (simp add: df_filtered_def re_plain_def re_plain_lazy_def)
qed

section \<open>Pagination\<close>

lemma total_pages_bounds:
  assumes "0 < k"
  shows "k * (total_pages n k - 1) < n \<and> n \<le> k * total_pages n k"
proof -
  define q where "q = (n - 1) div k"
  define r where "r = (n - 1) mod k"
  have "n - 1 = k * q + r" by (simp add: q_def r_def)
  moreover have "0 \<le> r" "r < k" using assms by (simp_all add: r_def)
  ultimately show ?thesis by (simp add: total_pages_def q_def [symmetric] algebra_simps)
qed

lemma total_pages_ceiling:
  assumes "0 < k"
  shows "total_pages n k = \<lceil>real_of_int n / real_of_int k\<rceil>"
proof -
  have k: "0 < real_of_int k" using assms by simp
  from total_pages_bounds [OF assms, of n]
  have "real_of_int (k * (total_pages n k - 1)) < real_of_int n"
    and "real_of_int n \<le> real_of_int (k * total_pages n k)"
    by (simp_all only: of_int_less_iff of_int_le_iff)
  then have "real_of_int (total_pages n k) - 1 < real_of_int n / real_of_int k"
    and "real_of_int n / real_of_int k \<le> real_of_int (total_pages n k)"
    using k by (simp_all add: pos_less_divide_eq pos_divide_le_eq mult.commute)
  then show ?thesis by (simp add: ceiling_unique)
qed

lemma total_pages_nonneg:
  assumes "0 < k" and "0 \<le> n"
  shows "0 \<le> total_pages n k"
proof -
  have "0 \<le> k * total_pages n k"
    using total_pages_bounds [OF assms(1), of n] assms(2) by linarith
  then show ?thesis using assms(1) by (simp add: zero_le_mult_iff)
qed

text \<open>With both bounds non-negative the slice is a \<open>drop\<close> followed by a \<open>take\<close>.\<close>

lemma iloc_slice_page:
  assumes "0 \<le> a" "0 \<le> b"
  shows "iloc_slice df a (a + b) = take (nat b) (drop (nat a) df)"
proof (cases "int (length df) \<le> a")
  case True
  then show ?thesis using assms by (simp add: iloc_slice_def slice_bound_def)
next
  case False
  show ?thesis
  proof (cases "a + b \<le> int (length df)")
    case True
    then have "nat (a + b) - nat a = nat b" using assms by simp
    then show ?thesis using assms True False
      by (simp add: iloc_slice_def slice_bound_def min_def)
  next
    case notle: False
    then have "length (drop (nat a) df) \<le> nat b" using assms by simp
    then show ?thesis using assms notle False
      by (simp add: iloc_slice_def slice_bound_def min_def)
  qed
qed

lemma df_page_take_drop:
  assumes "0 < k" "1 \<le> p"
  shows "df_page df k p = take (nat k) (drop (nat (p - 1) * nat k) df)"
proof -
  have "nat ((p - 1) * k) = nat (p - 1) * nat k"
    using assms by (simp add: nat_mult_distrib)
  then show ?thesis
    using assms iloc_slice_page [of "(p - 1) * k" k df] by (simp add: df_page_def)
qed

lemma concat_chunks:
  "concat (map (\<lambda>i. take k (drop (i * k) xs)) [0..<m]) = take (m * k) xs"
proof (induction m)
  case 0
  then show ?case by simp
next
  case (Suc m)
  have "take (Suc m * k) xs = take (m * k) xs @ take k (drop (m * k) xs)"
    using take_add [of "m * k" k xs] by (simp add: add.commute)
  then show ?case using Suc by simp
qed

lemma upto_as_upt: "[1..int m] = map (\<lambda>i. int i + 1) [0..<m]"
proof (induction m)
  case 0
  then show ?case by simp
next
  case (Suc m)
  have "[1..int (Suc m)] = [1..int m] @ [int m + 1]"
    using upto_rec2 [of 1 "int (Suc m)"] by (simp add: add.commute)
  then show ?case using Suc by simp
qed

lemma concat_pages:
  assumes "0 < k"
  shows "concat (map (df_page df k) [1..total_pages (int (length df)) k]) = df"
proof -
  define m where "m = nat (total_pages (int (length df)) k)"
  have bounds: "int (length df) \<le> k * total_pages (int (length df)) k"
    using total_pages_bounds [OF assms] by blast
  have "0 \<le> total_pages (int (length df)) k"
    using assms by (simp add: total_pages_nonneg)
  then have tp: "total_pages (int (length df)) k = int m" by (simp add: m_def)
  have "map (df_page df k) [1..int m] = map (\<lambda>i. take (nat k) (drop (i * nat k) df)) [0..<m]"
    using assms by (simp add: upto_as_upt df_page_take_drop o_def)
  then have "concat (map (df_page df k) [1..int m]) = take (m * nat k) df"
    by (simp add: concat_chunks)
  moreover have "length df \<le> m * nat k"
  proof -
    have "int (length df) \<le> int (m * nat k)" using bounds tp assms by (simp add: mult.commute)
    then show ?thesis by linarith
  qed
  ultimately show ?thesis by (simp add: tp)
qed

lemma page_beyond_empty:
  assumes "0 < k" and "total_pages (int (length df)) k < p"
  shows "df_page df k p = []"
proof -
  have "0 \<le> total_pages (int (length df)) k"
    using assms(1) by (simp add: total_pages_nonneg)
  then have p: "1 \<le> p" and le: "total_pages (int (length df)) k \<le> p - 1"
    using assms(2) by simp_all
  have "int (length df) \<le> k * total_pages (int (length df)) k"
    using total_pages_bounds [OF assms(1)] by blast
  also have "\<dots> \<le> k * (p - 1)"
    using le assms(1) by (simp add: mult_left_mono)
  finally have "int (length df) \<le> int (nat (p - 1) * nat k)"
    using p assms(1) by (simp add: mult.commute)
  then have "length df \<le> nat (p - 1) * nat k" by linarith
  then show ?thesis using assms(1) p by (simp add: df_page_take_drop)
qed

lemmas page_defs = df_page_def iloc_slice_def slice_bound_def total_pages_def leads_per_page_def

text \<open>
  Claim C5. For every frame, page size \<open>k > 0\<close> and page \<open>p \<ge> 1\<close>: the page has at most
  \<open>k\<close> rows; the pages \<open>1\<close> to \<open>total_pages\<close>, one after the other, are the frame itself; and
  a page after the last one is empty.
\<close>

theorem df_page_partition:
  assumes "0 < k" and "1 \<le> p"
  shows "length (df_page df k p) \<le> nat k
    \<and> concat (map (df_page df k) [1..total_pages (int (length df)) k]) = df
    \<and> (total_pages (int (length df)) k < p \<longrightarrow> df_page df k p = [])"
proof -
  have "length (df_page df k p) \<le> nat k"
    using assms by (simp add: df_page_take_drop)
  moreover have "concat (map (df_page df k) [1..total_pages (int (length df)) k]) = df"
    using assms(1) by (rule concat_pages)
  moreover have "df_page df k p = []" if "total_pages (int (length df)) k < p"
    using assms(1) that by (rule page_beyond_empty)
  ultimately show ?thesis by blast
qed

theorem df_page_partition_witness:
  "(0::int) < 2 \<and> (1::int) \<le> 2
   \<and> df_page scenario 2 1 = load_data [row_A, row_B]
   \<and> df_page scenario 2 2 = load_data [row_C]
   \<and> length (df_page scenario 2 2) \<le> nat 2
   \<and> total_pages (int (length scenario)) 2 = 2
   \<and> concat (map (df_page scenario 2) [1..total_pages (int (length scenario)) 2]) = scenario
   \<and> total_pages (int (length scenario)) 2 < 3 \<and> df_page scenario 2 3 = []
   \<and> df_page scenario leads_per_page 1 = scenario"
proof -
  have pages: "df_page scenario 2 1 = load_data [row_A, row_B]"
    "df_page scenario 2 2 = load_data [row_C]"
    "df_page scenario leads_per_page 1 = scenario"
    by (simp_all add: page_defs scenario_def load_data_def)
  have count: "total_pages (int (length scenario)) 2 = 2"
    by (simp add: total_pages_def scenario_def load_data_def)
  show ?thesis
    using df_page_partition [of 2 2 scenario] df_page_partition [of 2 3 scenario] pages count
    by simp
qed

text \<open>
  Claim C6. For every row count \<open>n \<ge> 0\<close> and page size \<open>k > 0\<close>, \<^verbatim>\<open>total_pages\<close> is the
  ceiling of \<open>n / k\<close>; for no rows it is zero.
\<close>

theorem total_pages_is_ceiling:
  assumes "0 \<le> n" and "0 < k"
  shows "total_pages n k = \<lceil>real_of_int n / real_of_int k\<rceil> \<and> total_pages 0 k = 0"
  using assms total_pages_ceiling [of k n] total_pages_ceiling [of k 0] by simp

theorem total_pages_is_ceiling_witness:
  "(0::int) \<le> 51 \<and> (0::int) < leads_per_page
   \<and> total_pages 51 leads_per_page = 2 \<and> total_pages 50 leads_per_page = 1
   \<and> total_pages 49 leads_per_page = 1 \<and> total_pages 0 leads_per_page = 0"
  using total_pages_is_ceiling [of 51 leads_per_page] total_pages_is_ceiling [of 50 leads_per_page]
    total_pages_is_ceiling [of 49 leads_per_page]
  by (simp add: leads_per_page_def)

end
